theory Spec2Isabelle
  imports Complex_Main
begin

section \<open>Data model (blockchain.py, models.py)\<close>

text \<open>
  Amounts and timestamps are Python floats; they are modelled as reals. Block indices and
  nonces are Python integers, which are unbounded.
\<close>

record transaction =
  sender :: string
  recipient :: string
  amount :: real
  timestamp :: real
  txid :: string

record block =
  index :: int
  block_timestamp :: real
  transactions :: "transaction list"
  previous_hash :: string
  nonce :: int
  hash :: string

text \<open>The request bodies of models.py: optional fields may be absent.\<close>

record transaction_model =
  tm_sender :: string
  tm_recipient :: string
  tm_amount :: real
  tm_timestamp :: "real option"
  tm_txid :: "string option"

record block_model =
  bm_index :: int
  bm_timestamp :: real
  bm_transactions :: "transaction_model list"
  bm_previous_hash :: string
  bm_nonce :: int
  bm_hash :: string

text \<open>
  The ledger object. The field \<open>bchain\<close> is \<open>self.chain\<close> and \<open>balances\<close> is the
  dictionary \<open>self.balances\<close>. The lock is not part of the sequential model.
\<close>

record blockchain =
  bchain :: "block list"
  difficulty :: int
  mining_reward :: real
  mempool :: "transaction list"
  nodes :: "string set"
  balances :: "string \<rightharpoonup> real"

datatype error = IndexError | InvalidBlock

subsection \<open>Digests\<close>

text \<open>
  \<open>hashlib.sha256\<close> and \<open>json.dumps\<close> are library code. The block digest is a
  parameter \<open>H\<close> of the five fields that \<open>calculate_hash\<close> serialises, and the
  transaction digest is a parameter \<open>T\<close> of the four fields that \<open>calculate_txid\<close>
  formats. Every definition below that hashes takes them as arguments.
\<close>

type_synonym block_fields = "int \<times> real \<times> transaction list \<times> string \<times> int"
type_synonym block_digest = "block_fields \<Rightarrow> string"
type_synonym tx_digest = "string \<times> string \<times> real \<times> real \<Rightarrow> string"

definition calculate_txid :: "tx_digest \<Rightarrow> transaction \<Rightarrow> string" where
  "calculate_txid T tx = T (sender tx, recipient tx, amount tx, timestamp tx)"

definition calculate_hash :: "block_digest \<Rightarrow> block \<Rightarrow> string" where
  "calculate_hash H b =
     H (index b, block_timestamp b, transactions b, previous_hash b, nonce b)"

subsection \<open>Constructors\<close>

text \<open>
  \<open>Transaction.__init__\<close>: \<open>timestamp or time.time()\<close> and
  \<open>txid or self.calculate_txid()\<close>. A missing or zero timestamp is replaced by the clock
  reading \<open>now\<close>, a missing or empty txid by the digest.
\<close>

definition Transaction_init ::
  "tx_digest \<Rightarrow> real \<Rightarrow> string \<Rightarrow> string \<Rightarrow> real \<Rightarrow> real option \<Rightarrow> string option \<Rightarrow> transaction"
where
  "Transaction_init T now s r a ts tid =
     (let t = (case ts of None \<Rightarrow> now | Some v \<Rightarrow> if v = 0 then now else v);
          tx = \<lparr>sender = s, recipient = r, amount = a, timestamp = t, txid = []\<rparr>
      in tx\<lparr>txid := (case tid of None \<Rightarrow> calculate_txid T tx
                               | Some i \<Rightarrow> if i = [] then calculate_txid T tx else i)\<rparr>)"

definition Transaction_from_dict :: "tx_digest \<Rightarrow> real \<Rightarrow> transaction_model \<Rightarrow> transaction" where
  "Transaction_from_dict T now d =
     Transaction_init T now (tm_sender d) (tm_recipient d) (tm_amount d)
       (tm_timestamp d) (tm_txid d)"

text \<open>\<open>Block.__init__\<close>: \<open>self.hash = hash_ or self.calculate_hash()\<close>.\<close>

definition Block_init ::
  "block_digest \<Rightarrow> int \<Rightarrow> real \<Rightarrow> transaction list \<Rightarrow> string \<Rightarrow> int \<Rightarrow> string option \<Rightarrow> block"
where
  "Block_init H i ts txs prev n hash_opt =
     (let b = \<lparr>index = i, block_timestamp = ts, transactions = txs,
               previous_hash = prev, nonce = n, hash = []\<rparr>
      in b\<lparr>hash := (case hash_opt of None \<Rightarrow> calculate_hash H b
                                  | Some h \<Rightarrow> if h = [] then calculate_hash H b else h)\<rparr>)"

text \<open>
  \<open>Block.from_dict\<close>. Each transaction is rebuilt by \<open>Transaction.from_dict\<close>, which
  may read the clock; \<open>clk k\<close> is the reading the clock gives while the \<open>k\<close>-th
  transaction is rebuilt.
\<close>

fun transactions_from_dict ::
  "tx_digest \<Rightarrow> (nat \<Rightarrow> real) \<Rightarrow> nat \<Rightarrow> transaction_model list \<Rightarrow> transaction list"
where
  "transactions_from_dict T clk k [] = []"
| "transactions_from_dict T clk k (d # ds) =
     Transaction_from_dict T (clk k) d # transactions_from_dict T clk (Suc k) ds"

definition Block_from_dict ::
  "block_digest \<Rightarrow> tx_digest \<Rightarrow> (nat \<Rightarrow> real) \<Rightarrow> block_model \<Rightarrow> block"
where
  "Block_from_dict H T clk d =
     Block_init H (bm_index d) (bm_timestamp d)
       (transactions_from_dict T clk 0 (bm_transactions d))
       (bm_previous_hash d) (bm_nonce d) (Some (bm_hash d))"

section \<open>The ledger (class Blockchain)\<close>

text \<open>
  \<open>Blockchain.__init__\<close> with \<open>create_genesis_block\<close>; \<open>t0\<close> is the clock reading at
  construction.
\<close>

definition create_genesis_block :: "block_digest \<Rightarrow> real \<Rightarrow> blockchain \<Rightarrow> blockchain" where
  "create_genesis_block H t0 s =
     s\<lparr>bchain := bchain s @ [Block_init H 0 t0 [] ''0'' 0 None]\<rparr>"

definition Blockchain_init :: "block_digest \<Rightarrow> real \<Rightarrow> int \<Rightarrow> real \<Rightarrow> blockchain" where
  "Blockchain_init H t0 d r =
     (create_genesis_block H t0
        \<lparr>bchain = [], difficulty = d, mining_reward = r, mempool = [],
         nodes = {}, balances = Map.empty\<rparr>) \<lparr>balances := Map.empty\<rparr>"

text \<open>\<open>self.chain[-1]\<close> raises IndexError on an empty list.\<close>

definition get_last_block :: "blockchain \<Rightarrow> error + block" where
  "get_last_block s = (if bchain s = [] then Inl IndexError else Inr (last (bchain s)))"

text \<open>\<open>d.get(k, 0)\<close>\<close>

definition get0 :: "(string \<rightharpoonup> real) \<Rightarrow> string \<Rightarrow> real" where
  "get0 m k = (case m k of None \<Rightarrow> 0 | Some v \<Rightarrow> v)"

definition add_transaction :: "transaction \<Rightarrow> blockchain \<Rightarrow> bool \<times> blockchain" where
  "add_transaction tx s =
     (if sender tx \<noteq> ''MINING'' \<and> get0 (balances s) (sender tx) < amount tx
      then (False, s)
      else (True, s\<lparr>mempool := mempool s @ [tx]\<rparr>))"

subsection \<open>Balances\<close>

text \<open>The body of the balance loops: debit the sender unless it is MINING, then credit.\<close>

definition apply_tx :: "(string \<rightharpoonup> real) \<Rightarrow> transaction \<Rightarrow> (string \<rightharpoonup> real)" where
  "apply_tx m tx =
     (let m1 = (if sender tx \<noteq> ''MINING''
                then m(sender tx \<mapsto> get0 m (sender tx) - amount tx) else m)
      in m1(recipient tx \<mapsto> get0 m1 (recipient tx) + amount tx))"

text \<open>\<open>for tx in transactions: ...\<close>\<close>

fun apply_txs :: "(string \<rightharpoonup> real) \<Rightarrow> transaction list \<Rightarrow> (string \<rightharpoonup> real)" where
  "apply_txs m [] = m"
| "apply_txs m (tx # txs) = apply_txs (apply_tx m tx) txs"

text \<open>\<open>for block in self.chain: for tx in block.transactions: ...\<close>\<close>

fun apply_blocks :: "(string \<rightharpoonup> real) \<Rightarrow> block list \<Rightarrow> (string \<rightharpoonup> real)" where
  "apply_blocks m [] = m"
| "apply_blocks m (b # bs) = apply_blocks (apply_txs m (transactions b)) bs"

definition recalculate_balances :: "blockchain \<Rightarrow> blockchain" where
  "recalculate_balances s = s\<lparr>balances := apply_blocks Map.empty (bchain s)\<rparr>"

subsection \<open>Validation\<close>

text \<open>\<open>chain = chain or self.chain\<close>: an absent or empty argument means the own chain.\<close>

definition chain_or :: "block list option \<Rightarrow> blockchain \<Rightarrow> block list" where
  "chain_or c s = (case c of None \<Rightarrow> bchain s | Some xs \<Rightarrow> if xs = [] then bchain s else xs)"

text \<open>The loop \<open>for i in range(1, len(chain))\<close>, entered at \<open>i = 1\<close>.\<close>

function validate_loop :: "block_digest \<Rightarrow> block list \<Rightarrow> nat \<Rightarrow> bool" where
  "validate_loop H c i =
     (if i < length c then
        (if previous_hash (c ! i) \<noteq> hash (c ! (i - 1)) then False
         else if hash (c ! i) \<noteq> calculate_hash H (c ! i) then False
         else validate_loop H c (Suc i))
      else True)"
  by pat_completeness auto
termination
  by (relation "measure (\<lambda>(H, c, i). length c - i)") auto

declare validate_loop.simps [simp del]

definition validate_chain :: "block_digest \<Rightarrow> blockchain \<Rightarrow> block list option \<Rightarrow> bool" where
  "validate_chain H s c = validate_loop H (chain_or c s) 1"

definition replace_chain :: "block_digest \<Rightarrow> block list \<Rightarrow> blockchain \<Rightarrow> bool \<times> blockchain" where
  "replace_chain H new_chain s =
     (if length new_chain > length (bchain s) \<and> validate_chain H s (Some new_chain)
      then (True, (recalculate_balances (s\<lparr>bchain := new_chain\<rparr>))\<lparr>mempool := []\<rparr>)
      else (False, s))"

subsection \<open>Mining\<close>

text \<open>\<open>h.startswith(p)\<close> and \<open>"0" * d\<close> (empty for \<open>d \<le> 0\<close>).\<close>

definition startswith :: "string \<Rightarrow> string \<Rightarrow> bool" where
  "startswith h p = (take (length p) h = p)"

definition zeros :: "int \<Rightarrow> string" where
  "zeros d = replicate (nat d) (CHR ''0'')"

text \<open>The loop body: \<open>new_block.nonce += 1; new_block.hash = new_block.calculate_hash()\<close>.\<close>

definition pow_step :: "block_digest \<Rightarrow> block \<Rightarrow> block" where
  "pow_step H b = (let b1 = b\<lparr>nonce := nonce b + 1\<rparr> in b1\<lparr>hash := calculate_hash H b1\<rparr>)"

text \<open>
  The proof-of-work loop. It has no bound in the source, so it is a partial function:
  \<open>None\<close> means that the loop never exits.
\<close>

partial_function (option) proof_of_work :: "block_digest \<Rightarrow> int \<Rightarrow> block \<Rightarrow> block option" where
  "proof_of_work H d b =
     (if startswith (hash b) (zeros d) then Some b
      else proof_of_work H d (pow_step H b))"

text \<open>
  \<open>mine_block\<close>; \<open>t_tx\<close> and \<open>t_blk\<close> are the clock readings for the reward transaction
  and for the block. The result is \<open>None\<close> when the search does not return, an error when
  the chain has no last block, and otherwise the mined block with the new state.
\<close>

definition mine_block ::
  "block_digest \<Rightarrow> tx_digest \<Rightarrow> real \<Rightarrow> real \<Rightarrow> string \<Rightarrow> blockchain
     \<Rightarrow> (error + block \<times> blockchain) option"
where
  "mine_block H T t_tx t_blk miner_address s =
     (let txs = mempool s;
          reward_tx = Transaction_init T t_tx ''MINING'' miner_address (mining_reward s) None None;
          txs = txs @ [reward_tx]
      in case get_last_block s of
           Inl e \<Rightarrow> Some (Inl e)
         | Inr last_block \<Rightarrow>
             (case proof_of_work H (difficulty s)
                     (Block_init H (index last_block + 1) t_blk txs (hash last_block) 0 None) of
                None \<Rightarrow> None
              | Some new_block \<Rightarrow>
                  Some (Inr (new_block,
                    s\<lparr>bchain := bchain s @ [new_block],
                      balances := apply_txs (balances s) txs,
                      mempool := []\<rparr>))))"

section \<open>The node (node.py)\<close>

text \<open>
  The handler of \<open>/blocks/new\<close>. The request is decoded by \<open>Block.from_dict\<close>, compared
  with the last block, and appended; otherwise the handler raises the 400 "Invalid block".
  The result pairs the outcome with the ledger after the call.
\<close>

definition receive_block ::
  "block_digest \<Rightarrow> tx_digest \<Rightarrow> (nat \<Rightarrow> real) \<Rightarrow> block_model \<Rightarrow> blockchain
     \<Rightarrow> (error + unit) \<times> blockchain"
where
  "receive_block H T clk block_data s =
     (let blk = Block_from_dict H T clk block_data
      in case get_last_block s of
           Inl e \<Rightarrow> (Inl e, s)
         | Inr last_block \<Rightarrow>
             if previous_hash blk = hash last_block \<and> hash blk = calculate_hash H blk
             then (Inr (),
                   (recalculate_balances (s\<lparr>bchain := bchain s @ [blk]\<rparr>))\<lparr>mempool := []\<rparr>)
             else (Inl InvalidBlock, s))"

text \<open>
  \<open>resolve_conflicts\<close>. What one peer answers is an input: either the request fails (an
  exception or a status other than 200, both skipped by the source), or it yields the
  \<open>length\<close> field of the answer and the list of blocks decoded from its \<open>chain\<close> field.
  The peers are given in the order in which the set of nodes is iterated.
\<close>

datatype fetch = Fetch_failed | Fetched int "block list"

fun resolve_step ::
  "block_digest \<Rightarrow> blockchain \<Rightarrow> int \<times> block list option \<Rightarrow> fetch \<Rightarrow> int \<times> block list option"
where
  "resolve_step H s (max_length, new_chain) Fetch_failed = (max_length, new_chain)"
| "resolve_step H s (max_length, new_chain) (Fetched len c) =
     (if len > max_length \<and> validate_chain H s (Some c) then (len, Some c)
      else (max_length, new_chain))"

fun resolve_scan ::
  "block_digest \<Rightarrow> blockchain \<Rightarrow> int \<times> block list option \<Rightarrow> fetch list \<Rightarrow> int \<times> block list option"
where
  "resolve_scan H s acc [] = acc"
| "resolve_scan H s acc (r # rs) = resolve_scan H s (resolve_step H s acc r) rs"

text \<open>\<open>if new_chain:\<close> holds for a list that is neither \<open>None\<close> nor empty.\<close>

definition resolve_conflicts :: "block_digest \<Rightarrow> fetch list \<Rightarrow> blockchain \<Rightarrow> bool \<times> blockchain" where
  "resolve_conflicts H replies s =
     (case snd (resolve_scan H s (int (length (bchain s)), None) replies) of
        None \<Rightarrow> (False, s)
      | Some c \<Rightarrow> if c = [] then (False, s) else (True, snd (replace_chain H c s)))"

text \<open>An answer is accurate when its \<open>length\<close> field is the length of its chain.\<close>

fun accurate :: "fetch \<Rightarrow> bool" where
  "accurate Fetch_failed = True"
| "accurate (Fetched len c) = (len = int (length c))"

section \<open>Runs of the ledger\<close>

text \<open>
  The operations that change a ledger, and the state after a sequence of them. A run has
  no final state when a mining call in it does not return normally.
\<close>

datatype op =
    AddTransaction transaction
  | MineBlock string real real
  | ReceiveBlock block_model "nat \<Rightarrow> real"
  | ReplaceChain "block list"

fun exec :: "block_digest \<Rightarrow> tx_digest \<Rightarrow> op \<Rightarrow> blockchain \<Rightarrow> blockchain option" where
  "exec H T (AddTransaction tx) s = Some (snd (add_transaction tx s))"
| "exec H T (MineBlock miner t_tx t_blk) s =
     (case mine_block H T t_tx t_blk miner s of
        Some (Inr (b, s')) \<Rightarrow> Some s'
      | _ \<Rightarrow> None)"
| "exec H T (ReceiveBlock d clk) s = Some (snd (receive_block H T clk d s))"
| "exec H T (ReplaceChain c) s = Some (snd (replace_chain H c s))"

fun run :: "block_digest \<Rightarrow> tx_digest \<Rightarrow> op list \<Rightarrow> blockchain \<Rightarrow> blockchain option" where
  "run H T [] s = Some s"
| "run H T (x # xs) s = (case exec H T x s of None \<Rightarrow> None | Some s' \<Rightarrow> run H T xs s')"

fun replaces_with :: "(block list \<Rightarrow> bool) \<Rightarrow> op \<Rightarrow> bool" where
  "replaces_with P (ReplaceChain c) = P c"
| "replaces_with P _ = True"

section \<open>The properties, in the words of the specification\<close>

text \<open>
  A chain is consistent when every block from index 1 on names the hash of its predecessor
  and carries the digest of its own fields.
\<close>

definition chain_valid :: "block_digest \<Rightarrow> block list \<Rightarrow> bool" where
  "chain_valid H c =
     (\<forall>i \<in> {1 ..< length c}.
        previous_hash (c ! i) = hash (c ! (i - 1)) \<and> hash (c ! i) = calculate_hash H (c ! i))"

text \<open>
  The loop body of \<open>recalculate_balances\<close> folded over all transactions of all blocks in
  chain order, starting from the empty table.
\<close>

definition replay :: "block list \<Rightarrow> (string \<rightharpoonup> real)" where
  "replay c = foldl apply_tx Map.empty (concat (map transactions c))"

text \<open>
  The rule of the specification, written from its words and not from the loops: an
  identity without an entry has balance 0; a transaction subtracts its amount from the
  sender unless the sender is "MINING", and adds its amount to the recipient. The derived
  table is the fold of this rule over all transactions of all blocks, in chain order,
  from the empty table.
\<close>

definition balance_of :: "(string \<rightharpoonup> real) \<Rightarrow> string \<Rightarrow> real" where
  "balance_of m a = (case m a of None \<Rightarrow> 0 | Some v \<Rightarrow> v)"

definition subtract_from :: "string \<Rightarrow> real \<Rightarrow> (string \<rightharpoonup> real) \<Rightarrow> (string \<rightharpoonup> real)" where
  "subtract_from a x m = m(a \<mapsto> balance_of m a - x)"

definition add_to :: "string \<Rightarrow> real \<Rightarrow> (string \<rightharpoonup> real) \<Rightarrow> (string \<rightharpoonup> real)" where
  "add_to a x m = m(a \<mapsto> balance_of m a + x)"

definition balance_rule :: "(string \<rightharpoonup> real) \<Rightarrow> transaction \<Rightarrow> (string \<rightharpoonup> real)" where
  "balance_rule m tx =
     add_to (recipient tx) (amount tx)
       (if sender tx = ''MINING'' then m else subtract_from (sender tx) (amount tx) m)"

definition derived_balances :: "block list \<Rightarrow> (string \<rightharpoonup> real)" where
  "derived_balances c = foldl balance_rule Map.empty (concat (map transactions c))"

text \<open>
  The same table as sums: what an identity received, what it sent (a "MINING" sender
  sends nothing), and whether any transaction touches it.
\<close>

definition received :: "string \<Rightarrow> transaction list \<Rightarrow> real" where
  "received a txs = sum_list (map (\<lambda>tx. if recipient tx = a then amount tx else 0) txs)"

definition sent :: "string \<Rightarrow> transaction list \<Rightarrow> real" where
  "sent a txs =
     sum_list (map (\<lambda>tx. if sender tx = a \<and> sender tx \<noteq> ''MINING'' then amount tx else 0) txs)"

definition touched :: "string \<Rightarrow> transaction list \<Rightarrow> bool" where
  "touched a txs =
     list_ex (\<lambda>tx. recipient tx = a \<or> (sender tx = a \<and> sender tx \<noteq> ''MINING'')) txs"



definition genesis_shaped :: "block \<Rightarrow> bool" where
  "genesis_shaped b = (index b = 0 \<and> transactions b = [] \<and> previous_hash b = ''0'')"

definition starts_with_genesis :: "block list \<Rightarrow> bool" where
  "starts_with_genesis c = (case c of [] \<Rightarrow> False | b # bs \<Rightarrow> genesis_shaped b)"

section \<open>A small digest for running the model\<close>

text \<open>
  A stand-in with the shape of a SHA-256 hex digest, 64 characters: as many zeros as the
  nonce says (at most 8), then a mark of the block index, then padding.
\<close>

definition toy_digest :: block_digest where
  "toy_digest f =
     (case f of (i, ts, txs, prev, n) \<Rightarrow>
        (let k = nat (min 8 (max 0 n))
         in replicate k (CHR ''0'') @ [if even i then CHR ''a'' else CHR ''b'']
            @ replicate (63 - k) (CHR ''f'')))"

definition toy_txid :: tx_digest where
  "toy_txid f = (case f of (s, r, a, t) \<Rightarrow> s @ ''>'' @ r)"

text \<open>
  The ledger of node.py, \<open>Blockchain()\<close> with difficulty 4 and reward 10, and a ledger
  constructed with difficulty 65, both at clock reading 0.
\<close>

definition demo_ledger :: blockchain where
  "demo_ledger = Blockchain_init toy_digest 0 4 10"

definition hard_ledger :: blockchain where
  "hard_ledger = Blockchain_init toy_digest 0 65 10"

text \<open>Transactions, chains and a request used to run the model.\<close>

definition demo_tx_z :: transaction where
  "demo_tx_z = \<lparr>sender = ''Z'', recipient = ''X'', amount = 1, timestamp = 3, txid = ''z1''\<rparr>"

definition demo_tx_mint :: transaction where
  "demo_tx_mint =
     \<lparr>sender = ''MINING'', recipient = ''X'', amount = 7, timestamp = 3, txid = ''m1''\<rparr>"

definition demo_tx_neg :: transaction where
  "demo_tx_neg = \<lparr>sender = ''Z'', recipient = ''X'', amount = - 5, timestamp = 3, txid = ''n1''\<rparr>"

definition demo_genesis :: block where
  "demo_genesis = Block_init toy_digest 0 0 [] ''0'' 0 None"

text \<open>A consistent two-block chain whose second block was not mined (nonce 0).\<close>

definition demo_chain :: "block list" where
  "demo_chain = [demo_genesis, Block_init toy_digest 1 5 [] (hash demo_genesis) 0 None]"

text \<open>A consistent two-block chain that does not start with a genesis block.\<close>

definition odd_first :: block where
  "odd_first = Block_init toy_digest 7 5 [demo_tx_mint] ''abc'' 0 None"

definition odd_chain :: "block list" where
  "odd_chain = [odd_first, Block_init toy_digest 8 6 [] (hash odd_first) 0 None]"




text \<open>A transfer from the first miner.\<close>

definition demo_tx_pay :: transaction where
  "demo_tx_pay = \<lparr>sender = ''M1'', recipient = ''X'', amount = 5, timestamp = 3, txid = ''p1''\<rparr>"

definition ledger_inv :: "block_digest \<Rightarrow> blockchain \<Rightarrow> bool" where
  "ledger_inv H s =
     (bchain s \<noteq> [] \<and> chain_valid H (bchain s) \<and> balances s = replay (bchain s))"

section \<open>Facts about the loops\<close>

lemma validate_loop_iff:
  "validate_loop H c k =
     (\<forall>i \<in> {k ..< length c}.
        previous_hash (c ! i) = hash (c ! (i - 1)) \<and> hash (c ! i) = calculate_hash H (c ! i))"
proof (induction H c k rule: validate_loop.induct)
  case (1 H c i)
  show ?case
  proof (cases "i < length c")
    case False
    then show ?thesis by (simp add: validate_loop.simps [of H c i])
  next
    case True
    have split: "{i ..< length c} = insert i {Suc i ..< length c}"
      using True by auto
    show ?thesis
      using True 1 by (subst validate_loop.simps) (auto simp: split)
  qed
qed

lemma apply_txs_foldl: "apply_txs m txs = foldl apply_tx m txs"
  by (induction txs arbitrary: m) simp_all

lemma apply_blocks_foldl:
  "apply_blocks m c = foldl apply_tx m (concat (map transactions c))"
  by (induction c arbitrary: m) (simp_all add: apply_txs_foldl)

lemma apply_blocks_replay: "apply_blocks Map.empty c = replay c"
  by (simp add: replay_def apply_blocks_foldl)

lemma replay_snoc: "replay (c @ [b]) = apply_txs (replay c) (transactions b)"
  by (simp add: replay_def apply_txs_foldl)

lemma chain_valid_snoc:
  "chain_valid H (c @ [b]) =
     (chain_valid H c \<and>
      (c \<noteq> [] \<longrightarrow> previous_hash b = hash (last c) \<and> hash b = calculate_hash H b))"
proof (cases "c = []")
  case True
  then show ?thesis by (simp add: chain_valid_def)
next
  case False
  then have len: "1 \<le> length c" by (cases c) auto
  have split: "{1 ..< length (c @ [b])} = insert (length c) {1 ..< length c}"
    using len by auto
  have lastc: "c ! (length c - Suc 0) = last c"
    using False by (simp add: last_conv_nth)
  show ?thesis
    unfolding chain_valid_def split
    using False by (auto simp: nth_append lastc)
qed

lemma pow_iter_fields:
  "index ((pow_step H ^^ k) b) = index b \<and>
   block_timestamp ((pow_step H ^^ k) b) = block_timestamp b \<and>
   transactions ((pow_step H ^^ k) b) = transactions b \<and>
   previous_hash ((pow_step H ^^ k) b) = previous_hash b \<and>
   nonce ((pow_step H ^^ k) b) = nonce b + int k"
  by (induction k) (simp_all add: pow_step_def Let_def)

lemma pow_iter_hash:
  "hash b = calculate_hash H b \<Longrightarrow>
   hash ((pow_step H ^^ k) b) = calculate_hash H ((pow_step H ^^ k) b)"
  by (cases k) (simp_all add: pow_step_def Let_def calculate_hash_def)

lemma proof_of_work_sound:
  assumes "proof_of_work H d b = Some b'"
  shows "startswith (hash b') (zeros d) \<and> (\<exists>k. b' = (pow_step H ^^ k) b)"
proof (rule proof_of_work.raw_induct
    [where P = "\<lambda>H d b b'. startswith (hash b') (zeros d) \<and> (\<exists>k. b' = (pow_step H ^^ k) b)",
     OF _ assms])
  fix pow :: "block_digest \<Rightarrow> int \<Rightarrow> block \<Rightarrow> block option" and H d b b'
  assume IH: "\<And>H d b b'. pow H d b = Some b' \<Longrightarrow>
                startswith (hash b') (zeros d) \<and> (\<exists>k. b' = (pow_step H ^^ k) b)"
    and unfold: "(if startswith (hash b) (zeros d) then Some b else pow H d (pow_step H b)) = Some b'"
  show "startswith (hash b') (zeros d) \<and> (\<exists>k. b' = (pow_step H ^^ k) b)"
  proof (cases "startswith (hash b) (zeros d)")
    case True
    with unfold have "b' = b" by simp
    with True show ?thesis by (auto intro: exI [of _ 0])
  next
    case False
    with unfold have "pow H d (pow_step H b) = Some b'" by simp
    from IH [OF this] obtain k where
      "startswith (hash b') (zeros d)" and "b' = (pow_step H ^^ k) (pow_step H b)"
      by blast
    then show ?thesis
      by (auto intro: exI [of _ "Suc k"] simp: funpow_swap1)
  qed
qed

lemma proof_of_work_returns:
  "startswith (hash ((pow_step H ^^ k) b)) (zeros d) \<Longrightarrow> \<exists>b'. proof_of_work H d b = Some b'"
proof (induction k arbitrary: b)
  case 0
  then show ?case by (simp add: proof_of_work.simps)
next
  case (Suc k)
  show ?case
  proof (cases "startswith (hash b) (zeros d)")
    case True
    then show ?thesis by (simp add: proof_of_work.simps)
  next
    case False
    from Suc.prems have "startswith (hash ((pow_step H ^^ k) (pow_step H b))) (zeros d)"
      by (simp add: funpow_swap1)
    from Suc.IH [OF this] obtain b' where "proof_of_work H d (pow_step H b) = Some b'" ..
    with False show ?thesis by (subst proof_of_work.simps) simp
  qed
qed

lemma proof_of_work_diverges:
  "(\<And>k. \<not> startswith (hash ((pow_step H ^^ k) b)) (zeros d)) \<Longrightarrow> proof_of_work H d b = None"
proof (cases "proof_of_work H d b")
  case None
  then show ?thesis .
next
  case (Some b')
  assume never: "\<And>k. \<not> startswith (hash ((pow_step H ^^ k) b)) (zeros d)"
  from proof_of_work_sound [OF Some] never show ?thesis by blast
qed

lemma proof_of_work_first:
  "startswith (hash ((pow_step H ^^ k) b)) (zeros d) \<Longrightarrow>
   (\<And>j. j < k \<Longrightarrow> \<not> startswith (hash ((pow_step H ^^ j) b)) (zeros d)) \<Longrightarrow>
   proof_of_work H d b = Some ((pow_step H ^^ k) b)"
proof (induction k arbitrary: b)
  case 0
  then show ?case by (simp add: proof_of_work.simps)
next
  case (Suc k)
  from Suc.prems(2) [of 0] have nb: "\<not> startswith (hash b) (zeros d)" by simp
  have "proof_of_work H d (pow_step H b) = Some ((pow_step H ^^ k) (pow_step H b))"
  proof (rule Suc.IH)
    show "startswith (hash ((pow_step H ^^ k) (pow_step H b))) (zeros d)"
      using Suc.prems(1) by (simp add: funpow_swap1)
    fix j assume "j < k"
    then show "\<not> startswith (hash ((pow_step H ^^ j) (pow_step H b))) (zeros d)"
      using Suc.prems(2) [of "Suc j"] by (simp add: funpow_swap1)
  qed
  with nb show ?case by (subst proof_of_work.simps) (simp add: funpow_swap1)
qed

lemma Block_init_None:
  "index (Block_init H i ts txs prev n None) = i"
  "block_timestamp (Block_init H i ts txs prev n None) = ts"
  "transactions (Block_init H i ts txs prev n None) = txs"
  "previous_hash (Block_init H i ts txs prev n None) = prev"
  "nonce (Block_init H i ts txs prev n None) = n"
  "hash (Block_init H i ts txs prev n None) = H (i, ts, txs, prev, n)"
  "hash (Block_init H i ts txs prev n None) = calculate_hash H (Block_init H i ts txs prev n None)"
  by (simp_all add: Block_init_def Let_def calculate_hash_def)

lemma pow_iter_candidate_hash:
  "hash ((pow_step H ^^ k) (Block_init H i ts txs prev 0 None)) = H (i, ts, txs, prev, int k)"
proof -
  let ?b = "Block_init H i ts txs prev 0 None"
  have "hash ((pow_step H ^^ k) ?b) = calculate_hash H ((pow_step H ^^ k) ?b)"
    by (rule pow_iter_hash) (rule Block_init_None(7))
  then show ?thesis
    by (simp add: calculate_hash_def pow_iter_fields Block_init_None(1-5))
qed

lemma Transaction_init_None:
  "sender (Transaction_init T now s r a None None) = s"
  "recipient (Transaction_init T now s r a None None) = r"
  "amount (Transaction_init T now s r a None None) = a"
  "timestamp (Transaction_init T now s r a None None) = now"
  "txid (Transaction_init T now s r a None None) = T (s, r, a, now)"
  by (simp_all add: Transaction_init_def Let_def calculate_txid_def)

lemma mine_block_unfold:
  "bchain s \<noteq> [] \<Longrightarrow>
   mine_block H T t_tx t_blk miner s =
     (case proof_of_work H (difficulty s)
             (Block_init H (index (last (bchain s)) + 1) t_blk
                (mempool s @ [Transaction_init T t_tx ''MINING'' miner (mining_reward s) None None])
                (hash (last (bchain s))) 0 None) of
        None \<Rightarrow> None
      | Some b \<Rightarrow> Some (Inr (b,
          s\<lparr>bchain := bchain s @ [b],
            balances := apply_txs (balances s)
              (mempool s @ [Transaction_init T t_tx ''MINING'' miner (mining_reward s) None None]),
            mempool := []\<rparr>)))"
  by (simp add: mine_block_def get_last_block_def Let_def)

lemma mine_block_empty: "bchain s = [] \<Longrightarrow> mine_block H T t_tx t_blk miner s = Some (Inl IndexError)"
  by (simp add: mine_block_def get_last_block_def Let_def)

lemma mine_block_sound:
  assumes "mine_block H T t_tx t_blk miner s = Some (Inr (b, s'))"
  shows "bchain s \<noteq> []"
    and "s' = s\<lparr>bchain := bchain s @ [b],
               balances := apply_txs (balances s) (transactions b), mempool := []\<rparr>"
    and "index b = index (last (bchain s)) + 1"
    and "previous_hash b = hash (last (bchain s))"
    and "transactions b =
           mempool s @ [Transaction_init T t_tx ''MINING'' miner (mining_reward s) None None]"
    and "hash b = calculate_hash H b"
    and "startswith (hash b) (zeros (difficulty s))"
proof -
  let ?txs = "mempool s @ [Transaction_init T t_tx ''MINING'' miner (mining_reward s) None None]"
  let ?c = "Block_init H (index (last (bchain s)) + 1) t_blk ?txs (hash (last (bchain s))) 0 None"
  show ne: "bchain s \<noteq> []"
    using assms mine_block_empty [of s H T t_tx t_blk miner] by auto
  from assms have unf: "mine_block H T t_tx t_blk miner s = Some (Inr (b, s'))" .
  have pow: "proof_of_work H (difficulty s) ?c = Some b"
    and s': "s' = s\<lparr>bchain := bchain s @ [b], balances := apply_txs (balances s) ?txs,
                    mempool := []\<rparr>"
    using unf unfolding mine_block_unfold [OF ne]
    by (cases "proof_of_work H (difficulty s) ?c"; simp)+
  from proof_of_work_sound [OF pow] obtain k where
    z: "startswith (hash b) (zeros (difficulty s))" and b: "b = (pow_step H ^^ k) ?c"
    by blast
  show "startswith (hash b) (zeros (difficulty s))" by (rule z)
  show "index b = index (last (bchain s)) + 1"
    by (simp only: b pow_iter_fields Block_init_None(1-5))
  show "previous_hash b = hash (last (bchain s))"
    by (simp only: b pow_iter_fields Block_init_None(1-5))
  show txs: "transactions b = ?txs"
    by (simp only: b pow_iter_fields Block_init_None(1-5))
  show "hash b = calculate_hash H b"
    unfolding b by (rule pow_iter_hash) (rule Block_init_None(7))
  show "s' = s\<lparr>bchain := bchain s @ [b],
               balances := apply_txs (balances s) (transactions b), mempool := []\<rparr>"
    unfolding txs s' ..
qed

lemma mine_block_returns:
  assumes "bchain s \<noteq> []"
    and "startswith
           (H (index (last (bchain s)) + 1, t_blk,
               mempool s @ [Transaction_init T t_tx ''MINING'' miner (mining_reward s) None None],
               hash (last (bchain s)), int k))
           (zeros (difficulty s))"
  shows "\<exists>b s'. mine_block H T t_tx t_blk miner s = Some (Inr (b, s'))"
proof -
  let ?txs = "mempool s @ [Transaction_init T t_tx ''MINING'' miner (mining_reward s) None None]"
  let ?c = "Block_init H (index (last (bchain s)) + 1) t_blk ?txs (hash (last (bchain s))) 0 None"
  from assms(2) have "startswith (hash ((pow_step H ^^ k) ?c)) (zeros (difficulty s))"
    by (simp only: pow_iter_candidate_hash)
  from proof_of_work_returns [OF this] obtain b where "proof_of_work H (difficulty s) ?c = Some b" ..
  then show ?thesis
    unfolding mine_block_unfold [OF assms(1)] by simp
qed

lemma startswith_length: "startswith h p \<Longrightarrow> length p \<le> length h"
proof -
  assume "startswith h p"
  then have "length (take (length p) h) = length p" by (simp add: startswith_def)
  then show ?thesis by simp
qed

lemma mine_block_diverges:
  assumes "bchain s \<noteq> []" and "\<And>f. length (H f) < nat (difficulty s)"
  shows "mine_block H T t_tx t_blk miner s = None"
proof -
  let ?txs = "mempool s @ [Transaction_init T t_tx ''MINING'' miner (mining_reward s) None None]"
  let ?c = "Block_init H (index (last (bchain s)) + 1) t_blk ?txs (hash (last (bchain s))) 0 None"
  have "proof_of_work H (difficulty s) ?c = None"
  proof (rule proof_of_work_diverges)
    fix k
    have "length (hash ((pow_step H ^^ k) ?c)) < length (zeros (difficulty s))"
      using assms(2) by (simp add: pow_iter_candidate_hash zeros_def)
    then show "\<not> startswith (hash ((pow_step H ^^ k) ?c)) (zeros (difficulty s))"
      using startswith_length [of "hash ((pow_step H ^^ k) ?c)" "zeros (difficulty s)"] by linarith
  qed
  then show ?thesis
    unfolding mine_block_unfold [OF assms(1)] by simp
qed

section \<open>Mining\<close>

lemma length_toy_digest: "length (toy_digest f) = 64"
  by (cases f) (simp add: toy_digest_def Let_def)

lemma bchain_Blockchain_init:
  "bchain (Blockchain_init H t0 d r) = [Block_init H 0 t0 [] ''0'' 0 None]"
  "difficulty (Blockchain_init H t0 d r) = d"
  "mining_reward (Blockchain_init H t0 d r) = r"
  "mempool (Blockchain_init H t0 d r) = []"
  "balances (Blockchain_init H t0 d r) = Map.empty"
  by (simp_all add: Blockchain_init_def create_genesis_block_def)

text \<open>
  C1 (amended). In a ledger whose chain is not empty, and for which some nonce \<open>k\<close> gives
  the candidate block a digest with \<open>difficulty\<close> leading zeros, \<open>mine_block\<close> returns a
  block, also when the mempool is empty. The block is appended to the chain, its index is
  the previous head's index plus 1, its previous_hash is the previous head's hash, its
  transactions are the mempool followed by exactly one reward transaction (sender
  "MINING", recipient the miner, amount the mining reward), its hash starts with
  \<open>difficulty\<close> zeros, and the mempool is empty afterwards.
\<close>

theorem mine_block_appends_block:
  assumes "bchain s \<noteq> []"
    and "startswith
           (H (index (last (bchain s)) + 1, t_blk,
               mempool s @ [Transaction_init T t_tx ''MINING'' miner (mining_reward s) None None],
               hash (last (bchain s)), int k))
           (zeros (difficulty s))"
  shows "\<exists>b s' rw. mine_block H T t_tx t_blk miner s = Some (Inr (b, s')) \<and>
           bchain s' = bchain s @ [b] \<and>
           index b = index (last (bchain s)) + 1 \<and>
           previous_hash b = hash (last (bchain s)) \<and>
           transactions b = mempool s @ [rw] \<and>
           sender rw = ''MINING'' \<and> recipient rw = miner \<and> amount rw = mining_reward s \<and>
           startswith (hash b) (zeros (difficulty s)) \<and>
           mempool s' = []"
proof -
  have "\<exists>b s'. mine_block H T t_tx t_blk miner s = Some (Inr (b, s'))"
    by (rule mine_block_returns) (rule assms)+
  then obtain b s' where
    m: "mine_block H T t_tx t_blk miner s = Some (Inr (b, s'))" by blast
  let ?rw = "Transaction_init T t_tx ''MINING'' miner (mining_reward s) None None"
  note snd = mine_block_sound [OF m]
  have "bchain s' = bchain s @ [b]" and "mempool s' = []"
    by (simp_all add: snd(2))
  moreover have "sender ?rw = ''MINING'' \<and> recipient ?rw = miner \<and> amount ?rw = mining_reward s"
    by (simp only: Transaction_init_None simp_thms)
  ultimately show ?thesis
    using m snd(3,4,5,7) by blast
qed

theorem mine_block_appends_block_witness:
  "bchain demo_ledger \<noteq> [] \<and> mempool demo_ledger = [] \<and>
   startswith
     (toy_digest (index (last (bchain demo_ledger)) + 1, 2,
        mempool demo_ledger @ [Transaction_init toy_txid 1 ''MINING'' ''M1'' (mining_reward demo_ledger) None None],
        hash (last (bchain demo_ledger)), int 4))
     (zeros (difficulty demo_ledger)) \<and>
   (\<exists>b s' rw. mine_block toy_digest toy_txid 1 2 ''M1'' demo_ledger = Some (Inr (b, s')) \<and>
      bchain s' = bchain demo_ledger @ [b] \<and>
      index b = 1 \<and>
      previous_hash b = hash (last (bchain demo_ledger)) \<and>
      transactions b = [rw] \<and>
      sender rw = ''MINING'' \<and> recipient rw = ''M1'' \<and> amount rw = 10 \<and>
      startswith (hash b) ''0000'' \<and>
      mempool s' = [])"
proof -
  have ne: "bchain demo_ledger \<noteq> []"
    by (simp add: demo_ledger_def bchain_Blockchain_init)
  have pow: "startswith
     (toy_digest (index (last (bchain demo_ledger)) + 1, 2,
        mempool demo_ledger @ [Transaction_init toy_txid 1 ''MINING'' ''M1'' (mining_reward demo_ledger) None None],
        hash (last (bchain demo_ledger)), int 4))
     (zeros (difficulty demo_ledger))"
    by (simp add: demo_ledger_def bchain_Blockchain_init toy_digest_def startswith_def zeros_def
        Block_init_None(1) Let_def eval_nat_numeral)
  have z: "zeros (difficulty demo_ledger) = ''0000''"
    by (simp add: demo_ledger_def bchain_Blockchain_init zeros_def eval_nat_numeral)
  show ?thesis
    using mine_block_appends_block [of demo_ledger toy_digest 2 toy_txid 1 "''M1''" 4] ne pow
    by (simp add: z) (simp add: demo_ledger_def bchain_Blockchain_init Block_init_None(1))
qed

theorem mine_block_counterexample:
  "mine_block toy_digest toy_txid 1 2 ''M1'' hard_ledger = None"
proof (rule mine_block_diverges)
  show "bchain hard_ledger \<noteq> []"
    by (simp add: hard_ledger_def bchain_Blockchain_init)
  show "length (toy_digest f) < nat (difficulty hard_ledger)" for f
    by (simp add: length_toy_digest hard_ledger_def bchain_Blockchain_init)
qed

section \<open>Facts about single operations\<close>

lemma validate_chain_Some:
  "c \<noteq> [] \<Longrightarrow> validate_chain H s (Some c) = chain_valid H c"
  by (simp add: validate_chain_def chain_or_def validate_loop_iff chain_valid_def)

lemma validate_chain_own:
  "validate_chain H s None = chain_valid H (bchain s)"
  "validate_chain H s (Some []) = chain_valid H (bchain s)"
  by (simp_all add: validate_chain_def chain_or_def validate_loop_iff chain_valid_def)

lemma chain_valid_short: "length c \<le> 1 \<Longrightarrow> chain_valid H c"
  by (simp add: chain_valid_def)

lemma replace_chain_eq:
  "replace_chain H c s =
     (if length (bchain s) < length c \<and> chain_valid H c
      then (True, s\<lparr>bchain := c, balances := replay c, mempool := []\<rparr>)
      else (False, s))"
proof (cases "c = []")
  case True
  then show ?thesis by (simp add: replace_chain_def)
next
  case False
  then show ?thesis
    by (simp add: replace_chain_def validate_chain_Some recalculate_balances_def
        apply_blocks_replay)
qed

lemma receive_block_eq:
  "bchain s \<noteq> [] \<Longrightarrow>
   receive_block H T clk d s =
     (if previous_hash (Block_from_dict H T clk d) = hash (last (bchain s)) \<and>
         hash (Block_from_dict H T clk d) = calculate_hash H (Block_from_dict H T clk d)
      then (Inr (), s\<lparr>bchain := bchain s @ [Block_from_dict H T clk d],
                       balances := replay (bchain s @ [Block_from_dict H T clk d]),
                       mempool := []\<rparr>)
      else (Inl InvalidBlock, s))"
  by (simp add: receive_block_def get_last_block_def Let_def recalculate_balances_def
      apply_blocks_replay)

lemma receive_block_empty: "bchain s = [] \<Longrightarrow> receive_block H T clk d s = (Inl IndexError, s)"
  by (simp add: receive_block_def get_last_block_def Let_def)

lemma add_transaction_fields:
  "bchain (snd (add_transaction tx s)) = bchain s"
  "balances (snd (add_transaction tx s)) = balances s"
  by (simp_all add: add_transaction_def)

section \<open>Invariants of runs\<close>

lemma ledger_inv_init: "ledger_inv H (Blockchain_init H t0 d r)"
  by (simp add: ledger_inv_def bchain_Blockchain_init chain_valid_short replay_def
      Block_init_None(3))

lemma ledger_inv_add: "ledger_inv H s \<Longrightarrow> ledger_inv H (snd (add_transaction tx s))"
  by (simp add: ledger_inv_def add_transaction_fields)

lemma ledger_inv_mine:
  assumes inv: "ledger_inv H s"
    and m: "mine_block H T t_tx t_blk miner s = Some (Inr (b, s'))"
  shows "ledger_inv H s'"
proof -
  note snd = mine_block_sound [OF m]
  have c: "bchain s' = bchain s @ [b]"
    and bal: "balances s' = apply_txs (balances s) (transactions b)"
    by (simp_all add: snd(2))
  from inv have "chain_valid H (bchain s)" and "balances s = replay (bchain s)"
    by (simp_all add: ledger_inv_def)
  then show ?thesis
    by (simp add: ledger_inv_def c bal chain_valid_snoc replay_snoc snd(4) snd(6) [symmetric])
qed

lemma ledger_inv_receive:
  assumes inv: "ledger_inv H s"
  shows "ledger_inv H (snd (receive_block H T clk d s))"
proof -
  from inv have ne: "bchain s \<noteq> []" and v: "chain_valid H (bchain s)"
    by (simp_all add: ledger_inv_def)
  show ?thesis
    using inv v by (simp add: receive_block_eq [OF ne] ledger_inv_def chain_valid_snoc)
qed

lemma ledger_inv_replace:
  assumes inv: "ledger_inv H s"
  shows "ledger_inv H (snd (replace_chain H c s))"
proof (cases "length (bchain s) < length c \<and> chain_valid H c")
  case True
  then have "c \<noteq> []" by auto
  with True show ?thesis by (simp add: replace_chain_eq ledger_inv_def)
next
  case False
  then have "replace_chain H c s = (False, s)" by (simp only: replace_chain_eq if_False)
  with inv show ?thesis by simp
qed

lemma ledger_inv_exec:
  "ledger_inv H s \<Longrightarrow> exec H T x s = Some s' \<Longrightarrow> ledger_inv H s'"
proof (cases x)
  case (AddTransaction tx)
  assume "ledger_inv H s" and "exec H T x s = Some s'"
  with AddTransaction show ?thesis using ledger_inv_add [of H s tx] by auto
next
  case (MineBlock miner t_tx t_blk)
  assume inv: "ledger_inv H s" and e: "exec H T x s = Some s'"
  from e MineBlock obtain b where "mine_block H T t_tx t_blk miner s = Some (Inr (b, s'))"
    by (auto split: option.splits sum.splits)
  with inv show ?thesis by (rule ledger_inv_mine)
next
  case (ReceiveBlock d clk)
  assume "ledger_inv H s" and "exec H T x s = Some s'"
  with ReceiveBlock show ?thesis using ledger_inv_receive [of H s T clk d] by auto
next
  case (ReplaceChain c)
  assume "ledger_inv H s" and "exec H T x s = Some s'"
  with ReplaceChain show ?thesis using ledger_inv_replace [of H s c] by auto
qed

lemma ledger_inv_run:
  "ledger_inv H s \<Longrightarrow> run H T ops s = Some s' \<Longrightarrow> ledger_inv H s'"
proof (induction ops arbitrary: s)
  case Nil
  then show ?case by simp
next
  case (Cons x xs)
  from Cons.prems(2) obtain s1 where e: "exec H T x s = Some s1" and r: "run H T xs s1 = Some s'"
    by (auto split: option.splits)
  from ledger_inv_exec [OF Cons.prems(1) e] have "ledger_inv H s1" .
  from Cons.IH [OF this r] show ?case .
qed

lemma ledger_inv_reachable:
  "run H T ops (Blockchain_init H t0 d r) = Some s \<Longrightarrow> ledger_inv H s"
  using ledger_inv_init by (rule ledger_inv_run)

section \<open>Transaction intake\<close>

text \<open>
  C5. \<open>add_transaction\<close> accepts unconditionally when the sender is "MINING". Otherwise it
  rejects exactly when the sender's derived balance is less than the amount, where a sender
  absent from the balance table counts as balance 0. On rejection the ledger (chain,
  mempool, balance table) is unchanged; on acceptance the transaction is appended at the
  end of the mempool and the call reports success.
\<close>

theorem add_transaction_intake:
  "(sender tx = ''MINING'' \<longrightarrow> fst (add_transaction tx s)) \<and>
   (sender tx \<noteq> ''MINING'' \<longrightarrow>
      (\<not> fst (add_transaction tx s)) =
      ((case balances s (sender tx) of None \<Rightarrow> 0 | Some v \<Rightarrow> v) < amount tx)) \<and>
   (\<not> fst (add_transaction tx s) \<longrightarrow> snd (add_transaction tx s) = s) \<and>
   (fst (add_transaction tx s) \<longrightarrow>
      snd (add_transaction tx s) = s\<lparr>mempool := mempool s @ [tx]\<rparr>)"
  by (simp add: add_transaction_def get0_def)

theorem add_transaction_intake_witness:
  "sender demo_tx_mint = ''MINING'' \<and> fst (add_transaction demo_tx_mint demo_ledger) \<and>
   snd (add_transaction demo_tx_mint demo_ledger) = demo_ledger\<lparr>mempool := [demo_tx_mint]\<rparr> \<and>
   sender demo_tx_z \<noteq> ''MINING'' \<and> balances demo_ledger (sender demo_tx_z) = None \<and>
   0 < amount demo_tx_z \<and>
   \<not> fst (add_transaction demo_tx_z demo_ledger) \<and>
   snd (add_transaction demo_tx_z demo_ledger) = demo_ledger"
proof -
  have mint: "sender demo_tx_mint = ''MINING''"
    by (simp add: demo_tx_mint_def)
  have z: "sender demo_tx_z \<noteq> ''MINING''" "balances demo_ledger (sender demo_tx_z) = None"
    "0 < amount demo_tx_z"
    by (simp_all add: demo_tx_z_def demo_ledger_def bchain_Blockchain_init)
  have pool: "mempool demo_ledger = []"
    by (simp add: demo_ledger_def bchain_Blockchain_init)
  show ?thesis
    using add_transaction_intake [of demo_tx_mint demo_ledger]
      add_transaction_intake [of demo_tx_z demo_ledger] mint z pool
    by simp
qed

text \<open>
  C6 (amended). The ledger does not look at the sign of the amount. For a transaction
  whose sender is not "MINING" and whose amount is negative, \<open>add_transaction\<close> compares
  the sender's derived balance with the amount, as for any other amount: it accepts the
  transaction exactly when the balance is at least the amount, and so it accepts it, and
  appends it to the mempool, whenever the sender's balance is not negative.
\<close>

theorem add_transaction_negative_amount:
  assumes "sender tx \<noteq> ''MINING''" and "amount tx < 0"
  shows "fst (add_transaction tx s) = (amount tx \<le> get0 (balances s) (sender tx)) \<and>
         (0 \<le> get0 (balances s) (sender tx) \<longrightarrow>
            add_transaction tx s = (True, s\<lparr>mempool := mempool s @ [tx]\<rparr>))"
  using assms by (auto simp: add_transaction_def)

theorem add_transaction_negative_amount_witness:
  "sender demo_tx_neg \<noteq> ''MINING'' \<and> amount demo_tx_neg < 0 \<and>
   0 \<le> get0 (balances demo_ledger) (sender demo_tx_neg) \<and>
   fst (add_transaction demo_tx_neg demo_ledger) \<and>
   add_transaction demo_tx_neg demo_ledger =
     (True, demo_ledger\<lparr>mempool := mempool demo_ledger @ [demo_tx_neg]\<rparr>)"
proof -
  have h: "sender demo_tx_neg \<noteq> ''MINING''" "amount demo_tx_neg < 0"
    by (simp_all add: demo_tx_neg_def)
  have b: "get0 (balances demo_ledger) (sender demo_tx_neg) = 0"
    by (simp add: get0_def demo_ledger_def bchain_Blockchain_init)
  show ?thesis
    using add_transaction_negative_amount [OF h, of demo_ledger] h b by simp
qed

theorem add_transaction_sign_counterexample:
  "sender demo_tx_neg \<noteq> ''MINING'' \<and> amount demo_tx_neg < 0 \<and>
   add_transaction demo_tx_neg demo_ledger = (True, demo_ledger\<lparr>mempool := [demo_tx_neg]\<rparr>)"
  by (simp add: add_transaction_def get0_def demo_tx_neg_def demo_ledger_def
      bchain_Blockchain_init)

lemma hash_demo_genesis: "hash demo_genesis = CHR ''a'' # replicate 63 (CHR ''f'')"
  by (simp add: demo_genesis_def Block_init_None(6) toy_digest_def)

lemma bchain_demo_ledger: "bchain demo_ledger = [demo_genesis]"
  by (simp add: demo_ledger_def demo_genesis_def bchain_Blockchain_init)

lemma chain_valid_pair:
  "chain_valid H [a, b] = (previous_hash b = hash a \<and> hash b = calculate_hash H b)"
  using chain_valid_snoc [of H "[a]" b] by (simp add: chain_valid_short)

lemma chain_valid_demo_chain: "chain_valid toy_digest demo_chain"
  by (simp add: demo_chain_def chain_valid_pair Block_init_None(4,7))

lemma chain_valid_odd_chain: "chain_valid toy_digest odd_chain"
  by (simp add: odd_chain_def chain_valid_pair Block_init_None(4,7))

section \<open>Chain replacement\<close>

text \<open>
  C2. \<open>replace_chain\<close> installs the candidate if and only if it is strictly longer than
  the current chain and passes validation (every block from index 1 on links to its
  predecessor and carries its own digest). On success the chain is the candidate, the
  balance table is the replay of the candidate, the mempool is empty and the result is
  true; otherwise the result is false and the ledger is unchanged. A candidate that is not
  longer is never installed, and neither is an inconsistent one.
\<close>

theorem replace_chain_longest_valid:
  "replace_chain H c s =
     (if length (bchain s) < length c \<and> chain_valid H c
      then (True, s\<lparr>bchain := c, balances := replay c, mempool := []\<rparr>)
      else (False, s)) \<and>
   (length c \<le> length (bchain s) \<longrightarrow> replace_chain H c s = (False, s)) \<and>
   (\<not> chain_valid H c \<longrightarrow> replace_chain H c s = (False, s))"
  by (simp add: replace_chain_eq)

theorem replace_chain_longest_valid_witness:
  "length (bchain demo_ledger) < length demo_chain \<and> chain_valid toy_digest demo_chain \<and>
   replace_chain toy_digest demo_chain demo_ledger =
     (True, demo_ledger\<lparr>bchain := demo_chain, balances := replay demo_chain, mempool := []\<rparr>) \<and>
   length (bchain demo_ledger) \<le> length (bchain demo_ledger) \<and>
   replace_chain toy_digest (bchain demo_ledger) demo_ledger = (False, demo_ledger) \<and>
   \<not> chain_valid toy_digest (demo_chain @ [demo_genesis]) \<and>
   replace_chain toy_digest (demo_chain @ [demo_genesis]) demo_ledger = (False, demo_ledger)"
proof -
  have len: "length (bchain demo_ledger) < length demo_chain"
    by (simp add: bchain_demo_ledger demo_chain_def)
  have ne: "demo_chain \<noteq> []"
    by (simp add: demo_chain_def)
  have neq: "previous_hash demo_genesis \<noteq> hash (last demo_chain)"
    by (simp add: demo_chain_def demo_genesis_def Block_init_None(4,6) toy_digest_def)
  have bad: "\<not> chain_valid toy_digest (demo_chain @ [demo_genesis])"
    unfolding chain_valid_snoc using ne neq by simp
  show ?thesis
    using replace_chain_longest_valid [of toy_digest demo_chain demo_ledger]
      replace_chain_longest_valid [of toy_digest "bchain demo_ledger" demo_ledger]
      replace_chain_longest_valid [of toy_digest "demo_chain @ [demo_genesis]" demo_ledger]
      len bad chain_valid_demo_chain
    by simp
qed

text \<open>
  C10. \<open>validate_chain\<close> never looks at the difficulty. In every state of a run, a chain
  whose blocks link and carry their own digests validates, whatever its hashes start with,
  and \<open>replace_chain\<close> installs it whenever it is strictly longer than the local chain.
\<close>

theorem validate_chain_ignores_difficulty:
  assumes "run H T ops (Blockchain_init H t0 d r) = Some s" and "chain_valid H c"
  shows "validate_chain H s (Some c) \<and>
         (length (bchain s) < length c \<longrightarrow>
            replace_chain H c s =
              (True, s\<lparr>bchain := c, balances := replay c, mempool := []\<rparr>))"
proof -
  from ledger_inv_reachable [OF assms(1)] have "chain_valid H (bchain s)"
    by (simp add: ledger_inv_def)
  with assms(2) have "validate_chain H s (Some c)"
    by (cases "c = []") (simp_all add: validate_chain_own validate_chain_Some)
  with assms(2) show ?thesis by (simp add: replace_chain_eq)
qed

theorem validate_chain_ignores_difficulty_witness:
  "run toy_digest toy_txid [] (Blockchain_init toy_digest 0 4 10) = Some demo_ledger \<and>
   chain_valid toy_digest demo_chain \<and>
   difficulty demo_ledger = 4 \<and>
   length demo_chain = 2 \<and>
   \<not> startswith (hash (demo_chain ! 0)) ''0'' \<and>
   \<not> startswith (hash (demo_chain ! 1)) ''0'' \<and>
   validate_chain toy_digest demo_ledger (Some demo_chain) \<and>
   length (bchain demo_ledger) < length demo_chain \<and>
   replace_chain toy_digest demo_chain demo_ledger =
     (True, demo_ledger\<lparr>bchain := demo_chain, balances := replay demo_chain, mempool := []\<rparr>)"
proof -
  have r: "run toy_digest toy_txid [] (Blockchain_init toy_digest 0 4 10) = Some demo_ledger"
    by (simp add: demo_ledger_def)
  have len: "length (bchain demo_ledger) < length demo_chain"
    by (simp add: bchain_demo_ledger demo_chain_def)
  have nz: "length demo_chain = 2" "\<not> startswith (hash (demo_chain ! 0)) ''0''"
    "\<not> startswith (hash (demo_chain ! 1)) ''0''"
    by (simp_all add: demo_chain_def hash_demo_genesis Block_init_None(6) toy_digest_def
        startswith_def)
  have d: "difficulty demo_ledger = 4"
    by (simp add: demo_ledger_def bchain_Blockchain_init)
  show ?thesis
    using validate_chain_ignores_difficulty [OF r chain_valid_demo_chain]
      r len nz d chain_valid_demo_chain
    by simp
qed


lemma demo_mine_returns:
  "\<exists>b s'. mine_block toy_digest toy_txid 1 2 ''M1'' demo_ledger = Some (Inr (b, s'))"
proof (rule mine_block_returns)
  show "bchain demo_ledger \<noteq> []"
    by (simp add: bchain_demo_ledger)
  show "startswith
     (toy_digest (index (last (bchain demo_ledger)) + 1, 2,
        mempool demo_ledger @
          [Transaction_init toy_txid 1 ''MINING'' ''M1'' (mining_reward demo_ledger) None None],
        hash (last (bchain demo_ledger)), int 4))
     (zeros (difficulty demo_ledger))"
    by (simp add: demo_ledger_def bchain_Blockchain_init toy_digest_def startswith_def zeros_def
        Block_init_None(1) Let_def eval_nat_numeral)
qed

lemma demo_mine_result:
  "\<exists>b s'. mine_block toy_digest toy_txid 1 2 ''M1'' demo_ledger = Some (Inr (b, s')) \<and>
     bchain s' = [demo_genesis, b] \<and>
     previous_hash b = hash demo_genesis \<and>
     balances s' ''M1'' = Some 10"
proof -
  from demo_mine_returns obtain b s' where
    m: "mine_block toy_digest toy_txid 1 2 ''M1'' demo_ledger = Some (Inr (b, s'))" by blast
  note snd = mine_block_sound [OF m]
  have "bchain s' = [demo_genesis, b]"
    by (simp add: snd(2) bchain_demo_ledger)
  moreover have "previous_hash b = hash demo_genesis"
    by (simp add: snd(4) bchain_demo_ledger)
  moreover have "balances s' ''M1'' = Some 10"
    by (simp add: snd(2) snd(5) demo_ledger_def bchain_Blockchain_init apply_tx_def
        Transaction_init_None get0_def)
  ultimately show ?thesis using m by blast
qed

section \<open>Validation\<close>

lemma chain_valid_tampered:
  assumes "chain_valid H c" and "1 \<le> i" and "i < length c" and "p \<noteq> previous_hash (c ! i)"
  shows "\<not> chain_valid H (c[i := (c ! i)\<lparr>previous_hash := p\<rparr>])"
proof
  let ?c = "c[i := (c ! i)\<lparr>previous_hash := p\<rparr>]"
  assume tampered: "chain_valid H ?c"
  from assms(2,3) have mem: "i \<in> {1 ..< length c}" by simp
  from assms(2,3) have mem': "i \<in> {1 ..< length ?c}" by simp
  from tampered [unfolded chain_valid_def] mem'
  have "previous_hash (?c ! i) = hash (?c ! (i - 1))" by blast
  with assms(2,3) have "p = hash (c ! (i - 1))" by simp
  moreover from assms(1) mem have "previous_hash (c ! i) = hash (c ! (i - 1))"
    unfolding chain_valid_def by blast
  ultimately show False using assms(4) by simp
qed

lemma validate_chain_reachable:
  assumes "run H T ops (Blockchain_init H t0 d r) = Some s"
  shows "validate_chain H s (Some c) = chain_valid H c"
proof (cases "c = []")
  case True
  from ledger_inv_reachable [OF assms] have "chain_valid H (bchain s)"
    by (simp add: ledger_inv_def)
  with True show ?thesis by (simp add: validate_chain_own chain_valid_short)
next
  case False
  then show ?thesis by (rule validate_chain_Some)
qed

text \<open>
  C3 (amended). In every state of a run, \<open>validate_chain(chain)\<close> returns true if and
  only if for every index \<open>i \<ge> 1\<close> of the chain, \<open>chain[i].previous_hash\<close> equals
  \<open>chain[i-1].hash\<close> and \<open>chain[i].hash\<close> equals the digest of \<open>chain[i]\<close>'s own fields.
  A single-block chain is valid, the ledger's own chain is valid after any run (so after
  any sequence of \<open>mine_block\<close> calls from genesis), and changing the previous_hash of a
  block at an index \<open>i \<ge> 1\<close> of a valid chain makes validation return false. The
  previous_hash of the block at index 0 is never examined.
\<close>

theorem validate_chain_links:
  assumes "run H T ops (Blockchain_init H t0 d r) = Some s"
  shows "validate_chain H s (Some c) =
           (\<forall>i \<in> {1 ..< length c}.
              previous_hash (c ! i) = hash (c ! (i - 1)) \<and>
              hash (c ! i) = calculate_hash H (c ! i)) \<and>
         validate_chain H s (Some [g]) \<and>
         validate_chain H s (Some (bchain s)) \<and> validate_chain H s None \<and>
         (validate_chain H s (Some c) \<longrightarrow> 1 \<le> i \<longrightarrow> i < length c \<longrightarrow>
            p \<noteq> previous_hash (c ! i) \<longrightarrow>
            \<not> validate_chain H s (Some (c[i := (c ! i)\<lparr>previous_hash := p\<rparr>])))"
proof -
  note v = validate_chain_reachable [OF assms]
  from ledger_inv_reachable [OF assms] have own: "chain_valid H (bchain s)"
    by (simp add: ledger_inv_def)
  have "validate_chain H s (Some c) =
           (\<forall>i \<in> {1 ..< length c}.
              previous_hash (c ! i) = hash (c ! (i - 1)) \<and>
              hash (c ! i) = calculate_hash H (c ! i))"
    by (simp only: v chain_valid_def)
  moreover have "validate_chain H s (Some [g])"
    by (simp add: v chain_valid_short)
  moreover have "validate_chain H s (Some (bchain s))" "validate_chain H s None"
    using own by (simp_all add: v validate_chain_own)
  moreover have "\<not> validate_chain H s (Some (c[i := (c ! i)\<lparr>previous_hash := p\<rparr>]))"
    if "validate_chain H s (Some c)" "1 \<le> i" "i < length c" "p \<noteq> previous_hash (c ! i)"
    using chain_valid_tampered [of H c i p] that by (simp add: v)
  ultimately show ?thesis by blast
qed

theorem validate_chain_links_witness:
  "\<exists>s. run toy_digest toy_txid [MineBlock ''M1'' 1 2] (Blockchain_init toy_digest 0 4 10) = Some s \<and>
     length (bchain s) = 2 \<and>
     validate_chain toy_digest s (Some (bchain s)) \<and>
     validate_chain toy_digest s (Some [demo_genesis]) \<and>
     ''x'' \<noteq> previous_hash (bchain s ! 1) \<and>
     \<not> validate_chain toy_digest s (Some ((bchain s)[1 := (bchain s ! 1)\<lparr>previous_hash := ''x''\<rparr>]))"
proof -
  from demo_mine_result obtain b s where
    m: "mine_block toy_digest toy_txid 1 2 ''M1'' demo_ledger = Some (Inr (b, s))"
    and c: "bchain s = [demo_genesis, b]" and p: "previous_hash b = hash demo_genesis"
    by blast
  have r: "run toy_digest toy_txid [MineBlock ''M1'' 1 2] (Blockchain_init toy_digest 0 4 10) = Some s"
    using m by (simp add: demo_ledger_def [symmetric])
  have x: "''x'' \<noteq> previous_hash (bchain s ! 1)"
    by (simp add: c p hash_demo_genesis)
  have l: "length (bchain s) = 2" "(1::nat) \<le> 1" "1 < length (bchain s)"
    by (simp_all add: c)
  show ?thesis
    using validate_chain_links [OF r, of "bchain s" demo_genesis 1 "''x''"] r x l
    by blast
qed

theorem validate_chain_genesis_counterexample:
  "chain_valid toy_digest demo_chain \<and>
   previous_hash (demo_chain ! 0) \<noteq> ''tampered'' \<and>
   validate_chain toy_digest demo_ledger
     (Some (demo_chain[0 := (demo_chain ! 0)\<lparr>previous_hash := ''tampered''\<rparr>]))"
proof -
  have "previous_hash (demo_chain ! 0) \<noteq> ''tampered''"
    by (simp add: demo_chain_def demo_genesis_def Block_init_None(4))
  moreover have "validate_chain toy_digest demo_ledger
     (Some (demo_chain[0 := (demo_chain ! 0)\<lparr>previous_hash := ''tampered''\<rparr>]))"
    by (simp add: demo_chain_def validate_chain_Some chain_valid_pair Block_init_None(4,7)
        calculate_hash_def)
  ultimately show ?thesis using chain_valid_demo_chain by simp
qed

section \<open>The genesis block\<close>

lemma starts_with_genesis_append:
  "starts_with_genesis c \<Longrightarrow> starts_with_genesis (c @ bs)"
  by (cases c) (simp_all add: starts_with_genesis_def)

lemma starts_with_genesis_init: "starts_with_genesis (bchain (Blockchain_init H t0 d r))"
  by (simp add: bchain_Blockchain_init starts_with_genesis_def genesis_shaped_def
      Block_init_None(1,3,4))

lemma starts_with_genesis_exec:
  assumes g: "starts_with_genesis (bchain s)"
    and p: "replaces_with starts_with_genesis x"
    and e: "exec H T x s = Some s'"
  shows "starts_with_genesis (bchain s')"
proof (cases x)
  case (AddTransaction tx)
  with e g show ?thesis by (auto simp: add_transaction_fields)
next
  case (MineBlock miner t_tx t_blk)
  with e obtain b where m: "mine_block H T t_tx t_blk miner s = Some (Inr (b, s'))"
    by (auto split: option.splits sum.splits)
  have "bchain s' = bchain s @ [b]"
    by (simp add: mine_block_sound(2) [OF m])
  with g show ?thesis by (simp add: starts_with_genesis_append)
next
  case (ReceiveBlock d clk)
  from g have ne: "bchain s \<noteq> []" by (auto simp: starts_with_genesis_def)
  from e ReceiveBlock have "s' = snd (receive_block H T clk d s)" by simp
  with g show ?thesis
    by (simp add: receive_block_eq [OF ne] starts_with_genesis_append)
next
  case (ReplaceChain c)
  with e have "s' = snd (replace_chain H c s)" by simp
  with g p ReplaceChain show ?thesis by (simp add: replace_chain_eq)
qed

lemma starts_with_genesis_run:
  "starts_with_genesis (bchain s) \<Longrightarrow> list_all (replaces_with starts_with_genesis) ops \<Longrightarrow>
   run H T ops s = Some s' \<Longrightarrow> starts_with_genesis (bchain s')"
proof (induction ops arbitrary: s)
  case Nil
  then show ?case by simp
next
  case (Cons x xs)
  from Cons.prems(3) obtain s1 where e: "exec H T x s = Some s1" and r: "run H T xs s1 = Some s'"
    by (auto split: option.splits)
  from Cons.prems(2) have px: "replaces_with starts_with_genesis x"
    and pxs: "list_all (replaces_with starts_with_genesis) xs" by simp_all
  from starts_with_genesis_exec [OF Cons.prems(1) px e] have "starts_with_genesis (bchain s1)" .
  from Cons.IH [OF this pxs r] show ?case .
qed

text \<open>
  C8 (amended). The initial ledger's chain begins with the genesis block: index 0, no
  transactions, previous-hash "0". \<open>add_transaction\<close>, \<open>mine_block\<close> and \<open>receive_block\<close>
  keep the first block, and \<open>replace_chain\<close> takes the first block of the candidate as it
  is. So in every state of a run in which each \<open>replace_chain\<close> candidate begins with a
  block of that shape, the chain begins with a block of index 0, without transactions and
  with previous-hash "0".
\<close>

theorem chain_starts_with_genesis:
  assumes "run H T ops (Blockchain_init H t0 d r) = Some s"
    and "list_all (replaces_with starts_with_genesis) ops"
  shows "bchain s \<noteq> [] \<and> index (hd (bchain s)) = 0 \<and> transactions (hd (bchain s)) = [] \<and>
         previous_hash (hd (bchain s)) = ''0''"
proof -
  from starts_with_genesis_run [OF starts_with_genesis_init assms(2) assms(1)]
  have "starts_with_genesis (bchain s)" .
  then show ?thesis
    by (cases "bchain s") (simp_all add: starts_with_genesis_def genesis_shaped_def)
qed

lemma run_demo_replace:
  "chain_valid toy_digest c \<Longrightarrow> length c = 2 \<Longrightarrow>
   run toy_digest toy_txid [AddTransaction demo_tx_mint, ReplaceChain c]
     (Blockchain_init toy_digest 0 4 10)
     = Some (demo_ledger\<lparr>bchain := c, balances := replay c, mempool := []\<rparr>)"
  by (simp add: demo_ledger_def [symmetric] add_transaction_def demo_tx_mint_def
      replace_chain_eq bchain_demo_ledger)

theorem chain_starts_with_genesis_witness:
  "run toy_digest toy_txid [AddTransaction demo_tx_mint, ReplaceChain demo_chain]
     (Blockchain_init toy_digest 0 4 10)
     = Some (demo_ledger\<lparr>bchain := demo_chain, balances := replay demo_chain, mempool := []\<rparr>) \<and>
   list_all (replaces_with starts_with_genesis)
     [AddTransaction demo_tx_mint, ReplaceChain demo_chain] \<and>
   index (hd demo_chain) = 0 \<and> transactions (hd demo_chain) = [] \<and>
   previous_hash (hd demo_chain) = ''0''"
proof -
  have r: "run toy_digest toy_txid [AddTransaction demo_tx_mint, ReplaceChain demo_chain]
     (Blockchain_init toy_digest 0 4 10)
     = Some (demo_ledger\<lparr>bchain := demo_chain, balances := replay demo_chain, mempool := []\<rparr>)"
    by (rule run_demo_replace [OF chain_valid_demo_chain]) (simp add: demo_chain_def)
  have p: "list_all (replaces_with starts_with_genesis)
     [AddTransaction demo_tx_mint, ReplaceChain demo_chain]"
    by (simp add: starts_with_genesis_def demo_chain_def genesis_shaped_def demo_genesis_def
        Block_init_None(1,3,4))
  show ?thesis
    using chain_starts_with_genesis [OF r p] r p by simp
qed

theorem replace_chain_genesis_counterexample:
  "run toy_digest toy_txid [AddTransaction demo_tx_mint, ReplaceChain odd_chain]
     (Blockchain_init toy_digest 0 4 10)
     = Some (demo_ledger\<lparr>bchain := odd_chain, balances := replay odd_chain, mempool := []\<rparr>) \<and>
   index (hd odd_chain) = 7 \<and> transactions (hd odd_chain) = [demo_tx_mint] \<and>
   previous_hash (hd odd_chain) = ''abc''"
proof -
  have "run toy_digest toy_txid [AddTransaction demo_tx_mint, ReplaceChain odd_chain]
     (Blockchain_init toy_digest 0 4 10)
     = Some (demo_ledger\<lparr>bchain := odd_chain, balances := replay odd_chain, mempool := []\<rparr>)"
    by (rule run_demo_replace [OF chain_valid_odd_chain]) (simp add: odd_chain_def)
  then show ?thesis
    by (simp add: odd_chain_def odd_first_def Block_init_None(1,3,4))
qed

section \<open>Consensus\<close>

text \<open>What does hold of \<open>resolve_conflicts\<close>.\<close>

lemma resolve_conflicts_false:
  "\<not> fst (resolve_conflicts H rs s) \<Longrightarrow> snd (resolve_conflicts H rs s) = s"
  by (simp add: resolve_conflicts_def split: option.splits if_splits)

lemma resolve_scan_accurate:
  assumes "list_all accurate rs"
    and "int (length (bchain s)) \<le> m"
    and "nc = None \<or> (\<exists>c. nc = Some c \<and> length (bchain s) < length c \<and> chain_valid H c)"
    and "resolve_scan H s (m, nc) rs = (m', Some c')"
  shows "length (bchain s) < length c' \<and> chain_valid H c'"
  using assms
proof (induction rs arbitrary: m nc)
  case Nil
  then show ?case by auto
next
  case (Cons x xs)
  from Cons.prems(1) have xs: "list_all accurate xs" by simp
  show ?case
  proof (cases x)
    case Fetch_failed
    with Cons.prems(4) have scan: "resolve_scan H s (m, nc) xs = (m', Some c')" by simp
    show ?thesis
      by (rule Cons.IH [OF xs Cons.prems(2) Cons.prems(3) scan])
  next
    case (Fetched len c)
    with Cons.prems(1) have len: "len = int (length c)" by simp
    show ?thesis
    proof (cases "len > m \<and> validate_chain H s (Some c)")
      case True
      with len Cons.prems(2) have longer: "length (bchain s) < length c" by simp
      then have "c \<noteq> []" by auto
      with True have v: "chain_valid H c" by (simp add: validate_chain_Some)
      from True Fetched Cons.prems(4) have scan: "resolve_scan H s (len, Some c) xs = (m', Some c')"
        by simp
      have le: "int (length (bchain s)) \<le> len" using longer len by simp
      have inv: "Some c = None \<or>
          (\<exists>d. Some c = Some d \<and> length (bchain s) < length d \<and> chain_valid H d)"
        using longer v by simp
      show ?thesis
        by (rule Cons.IH [OF xs le inv scan])
    next
      case False
      with Fetched Cons.prems(4) have scan: "resolve_scan H s (m, nc) xs = (m', Some c')"
        by auto
      show ?thesis
        by (rule Cons.IH [OF xs Cons.prems(2) Cons.prems(3) scan])
    qed
  qed
qed

lemma resolve_conflicts_accurate:
  assumes "list_all accurate rs"
  shows "fst (resolve_conflicts H rs s) = (bchain (snd (resolve_conflicts H rs s)) \<noteq> bchain s)"
proof (cases "snd (resolve_scan H s (int (length (bchain s)), None) rs)")
  case None
  then show ?thesis by (simp add: resolve_conflicts_def)
next
  case (Some c)
  then obtain m where scan: "resolve_scan H s (int (length (bchain s)), None) rs = (m, Some c)"
    by (cases "resolve_scan H s (int (length (bchain s)), None) rs") simp
  have "length (bchain s) < length c \<and> chain_valid H c"
    by (rule resolve_scan_accurate [OF assms _ _ scan]) simp_all
  then have l: "length (bchain s) < length c" and v: "chain_valid H c" by simp_all
  then have "c \<noteq> []" and "c \<noteq> bchain s" by auto
  with Some l v show ?thesis
    by (simp add: resolve_conflicts_def replace_chain_eq)
qed

text \<open>
  C9. A peer answers with \<open>length = 5\<close> and a chain of a single consistent block. The scan
  compares the \<open>length\<close> field of the answer, not the length of the chain, so the chain
  becomes the candidate; \<open>replace_chain\<close> refuses it, since it is not longer than the
  local chain, and its result is dropped: \<open>resolve_conflicts\<close> returns true and the local
  chain is unchanged.
\<close>

theorem resolve_conflicts_reports_replaced:
  "resolve_conflicts toy_digest [Fetched 5 [odd_first]] demo_ledger = (True, demo_ledger) \<and>
   replace_chain toy_digest [odd_first] demo_ledger = (False, demo_ledger) \<and>
   bchain demo_ledger = [demo_genesis] \<and> odd_first \<noteq> demo_genesis"
proof -
  have v: "validate_chain toy_digest demo_ledger (Some [odd_first])"
    by (simp add: validate_chain_Some chain_valid_short)
  have r: "replace_chain toy_digest [odd_first] demo_ledger = (False, demo_ledger)"
    by (simp add: replace_chain_eq bchain_demo_ledger)
  have d: "index odd_first \<noteq> index demo_genesis"
    by (simp add: odd_first_def demo_genesis_def Block_init_None(1))
  then have "odd_first \<noteq> demo_genesis" by auto
  then show ?thesis
    using v r by (simp add: resolve_conflicts_def bchain_demo_ledger)
qed

section \<open>The balance rule\<close>

lemma apply_tx_balance_rule: "apply_tx m tx = balance_rule m tx"
  by (simp add: apply_tx_def balance_rule_def add_to_def subtract_from_def get0_def
      balance_of_def Let_def)

lemma foldl_apply_tx_balance_rule: "foldl apply_tx m txs = foldl balance_rule m txs"
  by (induction txs arbitrary: m) (simp_all add: apply_tx_balance_rule)

lemma replay_derived: "replay c = derived_balances c"
  by (simp add: replay_def derived_balances_def foldl_apply_tx_balance_rule)

text \<open>Over the reals the fold is a difference of two sums.\<close>

lemma balance_rule_at:
  "balance_rule m tx a =
     (if recipient tx = a \<or> (sender tx = a \<and> sender tx \<noteq> ''MINING'')
      then Some (balance_of m a + (if recipient tx = a then amount tx else 0)
                 - (if sender tx = a \<and> sender tx \<noteq> ''MINING'' then amount tx else 0))
      else m a)"
  by (simp add: balance_rule_def add_to_def subtract_from_def balance_of_def)

lemma untouched_sums: "\<not> touched a txs \<Longrightarrow> received a txs = 0 \<and> sent a txs = 0"
  by (induction txs) (auto simp: touched_def received_def sent_def)

lemma foldl_balance_rule_sums:
  "foldl balance_rule Map.empty txs a =
     (if touched a txs then Some (received a txs - sent a txs) else None)"
proof (induction txs rule: rev_induct)
  case Nil
  then show ?case by (simp add: touched_def)
next
  case (snoc tx txs)
  let ?m = "foldl balance_rule Map.empty txs"
  have bal: "balance_of ?m a = received a txs - sent a txs"
    using snoc.IH untouched_sums [of a txs] by (simp add: balance_of_def)
  have r: "received a (txs @ [tx]) = received a txs + (if recipient tx = a then amount tx else 0)"
    by (simp add: received_def)
  have s: "sent a (txs @ [tx]) =
      sent a txs + (if sender tx = a \<and> sender tx \<noteq> ''MINING'' then amount tx else 0)"
    by (simp add: sent_def)
  have t: "touched a (txs @ [tx]) =
      (touched a txs \<or> recipient tx = a \<or> (sender tx = a \<and> sender tx \<noteq> ''MINING''))"
    by (simp add: touched_def)
  have "foldl balance_rule Map.empty (txs @ [tx]) a = balance_rule ?m tx a"
    by simp
  also have "\<dots> = (if touched a (txs @ [tx])
      then Some (received a (txs @ [tx]) - sent a (txs @ [tx])) else None)"
    using balance_rule_at [of ?m tx a] r s t bal snoc.IH by auto
  finally show ?case .
qed

lemma derived_balances_sums:
  "derived_balances c a =
     (if touched a (concat (map transactions c))
      then Some (received a (concat (map transactions c)) - sent a (concat (map transactions c)))
      else None)"
  unfolding derived_balances_def by (rule foldl_balance_rule_sums)

lemma toy_mine_returns:
  assumes "bchain s \<noteq> []" and "difficulty s = 4"
  shows "\<exists>b s'. mine_block toy_digest T t_tx t_blk miner s = Some (Inr (b, s'))"
proof (rule mine_block_returns [OF assms(1)])
  show "startswith
     (toy_digest (index (last (bchain s)) + 1, t_blk,
        mempool s @ [Transaction_init T t_tx ''MINING'' miner (mining_reward s) None None],
        hash (last (bchain s)), int 4))
     (zeros (difficulty s))"
    by (simp add: assms(2) toy_digest_def startswith_def zeros_def Let_def eval_nat_numeral)
qed

text \<open>
  Scenario B of the specification: mine for M1, submit a transfer of 5 from M1 to X, mine
  for M2.
\<close>

lemma demo_transfer_run:
  "\<exists>s. run toy_digest toy_txid
          [MineBlock ''M1'' 1 2, AddTransaction demo_tx_pay, MineBlock ''M2'' 3 4]
          (Blockchain_init toy_digest 0 4 10) = Some s \<and>
       balances s ''M1'' = Some 5 \<and> balances s ''X'' = Some 5 \<and> balances s ''M2'' = Some 10 \<and>
       balances s ''Z'' = None"
proof -
  have ne0: "bchain demo_ledger \<noteq> []" and d0: "difficulty demo_ledger = 4"
    and r0: "mining_reward demo_ledger = 10" and p0: "mempool demo_ledger = []"
    and b0: "balances demo_ledger = Map.empty"
    by (simp_all add: demo_ledger_def bchain_Blockchain_init)
  from toy_mine_returns [OF ne0 d0] obtain b1 s1 where
    m1: "mine_block toy_digest toy_txid 1 2 ''M1'' demo_ledger = Some (Inr (b1, s1))" by blast
  note snd1 = mine_block_sound [OF m1]
  have ne1: "bchain s1 \<noteq> []" and d1: "difficulty s1 = 4" and r1: "mining_reward s1 = 10"
    and p1: "mempool s1 = []"
    by (simp_all add: snd1(2) d0 r0)
  have bal1: "balances s1 = [''M1'' \<mapsto> 10]"
    by (simp add: snd1(2) snd1(5) p0 r0 b0 apply_tx_def Transaction_init_None get0_def)
  have a: "add_transaction demo_tx_pay s1 = (True, s1\<lparr>mempool := [demo_tx_pay]\<rparr>)"
    by (simp add: add_transaction_def bal1 get0_def demo_tx_pay_def p1)
  let ?s2 = "s1\<lparr>mempool := [demo_tx_pay]\<rparr>"
  have ne2: "bchain ?s2 \<noteq> []" and d2: "difficulty ?s2 = 4"
    using ne1 d1 by simp_all
  from toy_mine_returns [OF ne2 d2] obtain b2 s3 where
    m2: "mine_block toy_digest toy_txid 3 4 ''M2'' ?s2 = Some (Inr (b2, s3))" by blast
  note snd2 = mine_block_sound [OF m2]
  have bal3: "balances s3 =
      apply_txs [''M1'' \<mapsto> 10]
        [demo_tx_pay, Transaction_init toy_txid 3 ''MINING'' ''M2'' 10 None None]"
    by (simp add: snd2(2) snd2(5) bal1 r1)
  have vals: "balances s3 ''M1'' = Some 5" "balances s3 ''X'' = Some 5"
    "balances s3 ''M2'' = Some 10" "balances s3 ''Z'' = None"
    by (simp_all add: bal3 apply_tx_def Transaction_init_None get0_def demo_tx_pay_def)
  have "run toy_digest toy_txid
          [MineBlock ''M1'' 1 2, AddTransaction demo_tx_pay, MineBlock ''M2'' 3 4]
          (Blockchain_init toy_digest 0 4 10) = Some s3"
    using m1 a m2 by (simp add: demo_ledger_def [symmetric])
  with vals show ?thesis by blast
qed

section \<open>Balances\<close>

text \<open>
  C4. In every state of a run from the initial ledger (any sequence of add_transaction,
  mine_block, receive_block and replace_chain), the balance table is the fold, over all
  transactions of all blocks in chain order, of the rule: subtract the amount from the
  sender unless the sender is "MINING", add the amount to the recipient. In particular the
  table that \<open>mine_block\<close> updates in place is the table that \<open>recalculate_balances\<close>
  computes from the resulting chain, and it is that fold.
\<close>

theorem balances_derived_from_chain:
  assumes "run H T ops (Blockchain_init H t0 d r) = Some s"
  shows "balances s = derived_balances (bchain s) \<and>
         (mine_block H T t_tx t_blk miner s = Some (Inr (b, s')) \<longrightarrow>
            balances s' = balances (recalculate_balances s') \<and>
            balances s' = derived_balances (bchain s'))"
proof -
  from ledger_inv_reachable [OF assms] have inv: "ledger_inv H s" .
  then have "balances s = derived_balances (bchain s)"
    by (simp add: ledger_inv_def replay_derived)
  moreover have "balances s' = balances (recalculate_balances s') \<and>
      balances s' = derived_balances (bchain s')"
    if "mine_block H T t_tx t_blk miner s = Some (Inr (b, s'))"
    using ledger_inv_mine [OF inv that]
    by (simp add: ledger_inv_def recalculate_balances_def apply_blocks_replay replay_derived)
  ultimately show ?thesis by blast
qed

theorem balances_derived_from_chain_witness:
  "(\<exists>s. run toy_digest toy_txid
          [MineBlock ''M1'' 1 2, AddTransaction demo_tx_pay, MineBlock ''M2'' 3 4]
          (Blockchain_init toy_digest 0 4 10) = Some s \<and>
       balances s = derived_balances (bchain s) \<and>
       derived_balances (bchain s) ''M1'' = Some 5 \<and>
       derived_balances (bchain s) ''X'' = Some 5 \<and>
       derived_balances (bchain s) ''M2'' = Some 10 \<and>
       derived_balances (bchain s) ''Z'' = None) \<and>
   run toy_digest toy_txid [] (Blockchain_init toy_digest 0 4 10) = Some demo_ledger \<and>
   (\<exists>b s'. mine_block toy_digest toy_txid 1 2 ''M1'' demo_ledger = Some (Inr (b, s')) \<and>
      balances s' = balances (recalculate_balances s') \<and>
      balances s' = derived_balances (bchain s') \<and>
      derived_balances (bchain s') ''M1'' = Some 10)"
proof -
  from demo_transfer_run obtain s where
    r: "run toy_digest toy_txid
          [MineBlock ''M1'' 1 2, AddTransaction demo_tx_pay, MineBlock ''M2'' 3 4]
          (Blockchain_init toy_digest 0 4 10) = Some s"
    and v: "balances s ''M1'' = Some 5" "balances s ''X'' = Some 5"
      "balances s ''M2'' = Some 10" "balances s ''Z'' = None"
    by blast
  have first: "\<exists>s. run toy_digest toy_txid
          [MineBlock ''M1'' 1 2, AddTransaction demo_tx_pay, MineBlock ''M2'' 3 4]
          (Blockchain_init toy_digest 0 4 10) = Some s \<and>
       balances s = derived_balances (bchain s) \<and>
       derived_balances (bchain s) ''M1'' = Some 5 \<and>
       derived_balances (bchain s) ''X'' = Some 5 \<and>
       derived_balances (bchain s) ''M2'' = Some 10 \<and>
       derived_balances (bchain s) ''Z'' = None"
    using balances_derived_from_chain [OF r] r v by (intro exI [of _ s]) metis
  have r0: "run toy_digest toy_txid [] (Blockchain_init toy_digest 0 4 10) = Some demo_ledger"
    by (simp add: demo_ledger_def)
  from demo_mine_result obtain b s' where
    m: "mine_block toy_digest toy_txid 1 2 ''M1'' demo_ledger = Some (Inr (b, s'))"
    and w: "balances s' ''M1'' = Some 10" by blast
  have second: "\<exists>b s'. mine_block toy_digest toy_txid 1 2 ''M1'' demo_ledger = Some (Inr (b, s')) \<and>
      balances s' = balances (recalculate_balances s') \<and>
      balances s' = derived_balances (bchain s') \<and>
      derived_balances (bchain s') ''M1'' = Some 10"
    using balances_derived_from_chain [OF r0, of 1 2 "''M1''" b s'] m w
    by (intro exI [of _ b] exI [of _ s']) metis
  from first r0 second show ?thesis by blast
qed

section \<open>Receiving a block\<close>









end
